theory Spec2Isabelle
  imports Main "HOL-Library.Word" "HOL-Library.Multiset"
begin

section \<open>JavaScript values as the leaderboard client sees them\<close>

text \<open>
  The client (\<^verbatim>\<open>src/App.jsx\<close>) is a React component. Its state cells hold
  JavaScript values that arrive as parsed JSON, so the model has a small universe of
  JavaScript values: primitives, and references into a store of objects and arrays.
  Strict equality (\<^verbatim>\<open>===\<close>, used by \<^verbatim>\<open>Array.prototype.indexOf\<close>) is equality
  of primitives and identity of references, which is HOL equality on \<open>jsval\<close>.

  A JavaScript string is a sequence of UTF-16 code units. Numbers are the integral ones
  (identifiers, point totals, epoch milliseconds); no operation of the client computes
  with them.
\<close>

type_synonym code_unit = "16 word"
type_synonym jsstring = "code_unit list"

definition ustr :: "string \<Rightarrow> jsstring" where
  "ustr s = map (\<lambda>c. of_char c) s"

datatype jsval =
    Undefined
  | Null
  | Bool bool
  | Num int
  | Str jsstring
  | Ref nat

datatype cell =
    HObj "(jsstring \<times> jsval) list"
  | HArr "jsval list"

type_synonym heap = "cell list"

datatype js_error = TypeError | RangeError

definition cell_at :: "heap \<Rightarrow> nat \<Rightarrow> cell option" where
  "cell_at h a = (if a < length h then Some (h ! a) else None)"

text \<open>Truthiness (\<^verbatim>\<open>!x\<close>, \<^verbatim>\<open>x || y\<close>, \<^verbatim>\<open>x ? a : b\<close>, \<^verbatim>\<open>x && y\<close>).\<close>

fun truthy :: "jsval \<Rightarrow> bool" where
  "truthy Undefined = False"
| "truthy Null = False"
| "truthy (Bool b) = b"
| "truthy (Num n) = (n \<noteq> 0)"
| "truthy (Str s) = (s \<noteq> [])"
| "truthy (Ref a) = True"

definition js_or :: "jsval \<Rightarrow> jsval \<Rightarrow> jsval" where
  "js_or a b = (if truthy a then a else b)"

definition bind_err :: "'e + 'a \<Rightarrow> ('a \<Rightarrow> 'e + 'b) \<Rightarrow> 'e + 'b" where
  "bind_err m f = (case m of Inl e \<Rightarrow> Inl e | Inr v \<Rightarrow> f v)"

text \<open>
  Property read \<^verbatim>\<open>v.k\<close> for the data keys the client reads (\<^verbatim>\<open>_id\<close>,
  \<^verbatim>\<open>username\<close>, \<^verbatim>\<open>totalPoints\<close>, \<^verbatim>\<open>userId\<close>, \<^verbatim>\<open>pointsClaimed\<close>,
  \<^verbatim>\<open>timestamp\<close>, \<^verbatim>\<open>data\<close>, \<^verbatim>\<open>message\<close>, \<^verbatim>\<open>response\<close>) and for
  \<^verbatim>\<open>length\<close>: reading from \<^verbatim>\<open>undefined\<close> or \<^verbatim>\<open>null\<close> throws a TypeError, an
  object yields its own property or \<^verbatim>\<open>undefined\<close>, arrays and strings have a
  \<^verbatim>\<open>length\<close>, every other read yields \<^verbatim>\<open>undefined\<close>.
\<close>

fun get_prop :: "heap \<Rightarrow> jsval \<Rightarrow> jsstring \<Rightarrow> js_error + jsval" where
  "get_prop h Undefined k = Inl TypeError"
| "get_prop h Null k = Inl TypeError"
| "get_prop h (Ref a) k =
     (case cell_at h a of
        Some (HObj fs) \<Rightarrow> (case map_of fs k of Some v \<Rightarrow> Inr v | None \<Rightarrow> Inr Undefined)
      | Some (HArr xs) \<Rightarrow>
          (if k = ustr ''length'' then Inr (Num (int (length xs))) else Inr Undefined)
      | None \<Rightarrow> Inr Undefined)"
| "get_prop h (Str s) k =
     (if k = ustr ''length'' then Inr (Num (int (length s))) else Inr Undefined)"
| "get_prop h (Bool b) k = Inr Undefined"
| "get_prop h (Num n) k = Inr Undefined"

text \<open>Optional chaining \<^verbatim>\<open>v?.k\<close>.\<close>

definition get_opt :: "heap \<Rightarrow> jsval \<Rightarrow> jsstring \<Rightarrow> jsval" where
  "get_opt h v k = (case get_prop h v k of Inl e \<Rightarrow> Undefined | Inr w \<Rightarrow> w)"

text \<open>
  \<^verbatim>\<open>String.prototype.trim\<close>: strips WhiteSpace and LineTerminator code units from both
  ends.
\<close>

definition is_ws :: "code_unit \<Rightarrow> bool" where
  "is_ws c \<longleftrightarrow>
     c = 0x0009 \<or> c = 0x000A \<or> c = 0x000B \<or> c = 0x000C \<or> c = 0x000D \<or> c = 0x0020 \<or>
     c = 0x00A0 \<or> c = 0x1680 \<or> (0x2000 \<le> c \<and> c \<le> 0x200A) \<or> c = 0x2028 \<or>
     c = 0x2029 \<or> c = 0x202F \<or> c = 0x205F \<or> c = 0x3000 \<or> c = 0xFEFF"

definition trim :: "jsstring \<Rightarrow> jsstring" where
  "trim s = rev (dropWhile is_ws (rev (dropWhile is_ws s)))"

section \<open>Parsed JSON\<close>

text \<open>
  Server data reaches the state cells as the result of parsing a JSON document (an HTTP
  response body or a socket message). Parsing allocates a new cell for each object
  and each array of the document, after the cells of its parts; a repeated key of an
  object keeps its last value.
\<close>

datatype json =
    JNull
  | JBool bool
  | JNum int
  | JStr jsstring
  | JArr "json list"
  | JObj "(jsstring \<times> json) list"

fun materialize :: "json \<Rightarrow> heap \<Rightarrow> jsval \<times> heap"
  and materialize_list :: "json list \<Rightarrow> heap \<Rightarrow> jsval list \<times> heap"
  and materialize_fields :: "(jsstring \<times> json) list \<Rightarrow> heap \<Rightarrow> (jsstring \<times> jsval) list \<times> heap"
where
  "materialize JNull h = (Null, h)"
| "materialize (JBool b) h = (Bool b, h)"
| "materialize (JNum n) h = (Num n, h)"
| "materialize (JStr s) h = (Str s, h)"
| "materialize (JArr js) h =
     (case materialize_list js h of (vs, h') \<Rightarrow> (Ref (length h'), h' @ [HArr vs]))"
| "materialize (JObj fs) h =
     (case materialize_fields fs h of (fvs, h') \<Rightarrow> (Ref (length h'), h' @ [HObj (rev fvs)]))"
| "materialize_list [] h = ([], h)"
| "materialize_list (j # js) h =
     (case materialize j h of (v, h1) \<Rightarrow>
        (case materialize_list js h1 of (vs, h2) \<Rightarrow> (v # vs, h2)))"
| "materialize_fields [] h = ([], h)"
| "materialize_fields ((k, j) # fs) h =
     (case materialize j h of (v, h1) \<Rightarrow>
        (case materialize_fields fs h1 of (fvs, h2) \<Rightarrow> ((k, v) # fvs, h2)))"


text \<open>The addresses of the references among the elements of an array.\<close>

fun refs_of :: "jsval list \<Rightarrow> nat list" where
  "refs_of [] = []"
| "refs_of (Ref a # vs) = a # refs_of vs"
| "refs_of (v # vs) = refs_of vs"

section \<open>Component state and event handlers\<close>

text \<open>
  The seven \<^verbatim>\<open>useState\<close> cells of \<^verbatim>\<open>App\<close>. \<open>newUserName\<close> is only ever written
  from an input element's value or the literal \<^verbatim>\<open>""\<close>, so it is a string; the other
  cells receive server data (\<open>selectedUserId\<close> is written by the selector and, after
  the first fetch, with the first participant's \<^verbatim>\<open>_id\<close>).
\<close>

record app_state =
  users :: jsval
  selectedUserId :: jsval
  newUserName :: jsstring
  message :: jsval
  loading :: bool
  error :: jsval
  claimHistory :: jsval

text \<open>
  What a handler does besides writing state: HTTP requests (the URL is
  \<^verbatim>\<open>API_BASE_URL\<close> followed by the endpoint's path), timers, console output.
\<close>

datatype endpoint = Users | Claims | ClaimsHistory

datatype effect =
    HttpGet endpoint
  | HttpPost endpoint "(jsstring \<times> jsval) list"
  | SetTimeout nat
  | ConsoleError

text \<open>How an awaited request settles: the response object, or the rejection reason.\<close>

datatype outcome = Fulfilled jsval | Rejected jsval

text \<open>
  \<^verbatim>\<open>handleAddUser\<close> up to its \<^verbatim>\<open>await\<close>: the guard on the trimmed name, then the
  request.
\<close>

definition handleAddUser :: "app_state \<Rightarrow> app_state \<times> effect list" where
  "handleAddUser s =
     (if \<not> truthy (Str (trim (newUserName s)))
      then (s\<lparr>error := Str (ustr ''User name cannot be empty.'')\<rparr>, [])
      else (s\<lparr>loading := True, error := Str []\<rparr>,
            [HttpPost Users [(ustr ''username'', Str (newUserName s))]]))"

text \<open>
  \<^verbatim>\<open>handleAddUser\<close> after the \<^verbatim>\<open>await\<close>. \<open>tostr\<close> is the language's string
  conversion used by the template literal. A TypeError thrown in the \<^verbatim>\<open>try\<close> block is
  caught by its \<^verbatim>\<open>catch\<close>, where the error object has no \<^verbatim>\<open>response\<close>; an error
  thrown inside \<^verbatim>\<open>catch\<close> leaves only the \<^verbatim>\<open>finally\<close> block's write.
\<close>

definition handleAddUser_settled ::
    "(jsval \<Rightarrow> jsstring) \<Rightarrow> heap \<Rightarrow> outcome \<Rightarrow> app_state \<Rightarrow> app_state" where
  "handleAddUser_settled tostr h oc s =
     (case oc of
        Fulfilled res \<Rightarrow>
          (case bind_err (get_prop h res (ustr ''data'')) (\<lambda>d. get_prop h d (ustr ''username'')) of
             Inr u \<Rightarrow>
               s\<lparr>message := Str (ustr ''Added \"'' @ tostr u @ ustr ''\"!''),
                 newUserName := [], loading := False\<rparr>
           | Inl e \<Rightarrow> s\<lparr>error := Str (ustr ''Failed to add user.''), loading := False\<rparr>)
      | Rejected err \<Rightarrow>
          (case get_prop h err (ustr ''response'') of
             Inl e \<Rightarrow> s\<lparr>loading := False\<rparr>
           | Inr r \<Rightarrow>
               s\<lparr>error := js_or (get_opt h (get_opt h r (ustr ''data'')) (ustr ''message''))
                              (Str (ustr ''Failed to add user.'')),
                 loading := False\<rparr>))"

text \<open>\<^verbatim>\<open>fetchClaimHistory\<close>, before and after its \<^verbatim>\<open>await\<close>.\<close>

definition fetchClaimHistory :: "app_state \<Rightarrow> app_state \<times> effect list" where
  "fetchClaimHistory s = (s, [HttpGet ClaimsHistory])"

definition fetchClaimHistory_settled ::
    "heap \<Rightarrow> outcome \<Rightarrow> app_state \<Rightarrow> app_state \<times> effect list" where
  "fetchClaimHistory_settled h oc s =
     (case oc of
        Fulfilled res \<Rightarrow>
          (case get_prop h res (ustr ''data'') of
             Inr d \<Rightarrow> (s\<lparr>claimHistory := d\<rparr>, [])
           | Inl e \<Rightarrow> (s, [ConsoleError]))
      | Rejected err \<Rightarrow> (s, [ConsoleError]))"

text \<open>
  \<^verbatim>\<open>handleClaimPoints\<close> up to its \<^verbatim>\<open>await\<close>, and after it (where a success starts
  \<^verbatim>\<open>fetchClaimHistory\<close>).
\<close>

definition handleClaimPoints :: "app_state \<Rightarrow> app_state \<times> effect list" where
  "handleClaimPoints s =
     (if \<not> truthy (selectedUserId s)
      then (s\<lparr>error := Str (ustr ''Please select a user.'')\<rparr>, [])
      else (s\<lparr>loading := True, error := Str []\<rparr>,
            [HttpPost Claims [(ustr ''userId'', selectedUserId s)]]))"

definition handleClaimPoints_settled ::
    "heap \<Rightarrow> outcome \<Rightarrow> app_state \<Rightarrow> app_state \<times> effect list" where
  "handleClaimPoints_settled h oc s =
     (case oc of
        Fulfilled res \<Rightarrow>
          (case bind_err (get_prop h res (ustr ''data'')) (\<lambda>d. get_prop h d (ustr ''message'')) of
             Inr m \<Rightarrow>
               (let (s', fx) = fetchClaimHistory (s\<lparr>message := m\<rparr>)
                in (s'\<lparr>loading := False\<rparr>, fx))
           | Inl e \<Rightarrow> (s\<lparr>error := Str (ustr ''Failed to claim points.''), loading := False\<rparr>, []))
      | Rejected err \<Rightarrow>
          (case get_prop h err (ustr ''response'') of
             Inl e \<Rightarrow> (s\<lparr>loading := False\<rparr>, [])
           | Inr r \<Rightarrow>
               (s\<lparr>error := js_or (get_opt h (get_opt h r (ustr ''data'')) (ustr ''message''))
                               (Str (ustr ''Failed to claim points.'')),
                  loading := False\<rparr>, [])))"

text \<open>
  The \<^verbatim>\<open>leaderboard_update\<close> listener registered on the socket, and the timer callback
  it schedules.
\<close>

definition on_leaderboard_update :: "jsval \<Rightarrow> app_state \<Rightarrow> app_state \<times> effect list" where
  "on_leaderboard_update updatedUsers s =
     (s\<lparr>users := updatedUsers, message := Str (ustr ''Leaderboard updated!'')\<rparr>,
      [SetTimeout 2000])"

definition on_message_timeout :: "app_state \<Rightarrow> app_state" where
  "on_message_timeout s = s\<lparr>message := Str []\<rparr>"

definition on_connect_error :: "app_state \<Rightarrow> app_state \<times> effect list" where
  "on_connect_error s =
     (s\<lparr>error := Str (ustr ''Could not connect to real-time updates. Please check backend.'')\<rparr>,
      [ConsoleError])"

text \<open>The banner line \<^verbatim>\<open>{error && <p>{error}</p>}\<close>: shown exactly when \<open>error\<close> is truthy.\<close>

definition error_banner :: "app_state \<Rightarrow> jsval option" where
  "error_banner s = (if truthy (error s) then Some (error s) else None)"

section \<open>Rendering\<close>

text \<open>
  The component's body maps the state to an element tree. The model keeps the data the
  tree shows (keys, names, points, ranks, initials, the rank-dependent border colour, the
  history rows) and every exception the body can throw while building it; class names and
  the random background colour are left out.
\<close>

definition array_of :: "heap \<Rightarrow> jsval \<Rightarrow> jsval list option" where
  "array_of h v =
     (case v of
        Ref a \<Rightarrow> (case cell_at h a of Some (HArr xs) \<Rightarrow> Some xs | _ \<Rightarrow> None)
      | _ \<Rightarrow> None)"

text \<open>\<^verbatim>\<open>Array.prototype.slice(start, end)\<close> with its relative (negative) indices.\<close>

definition js_slice :: "int \<Rightarrow> int option \<Rightarrow> 'a list \<Rightarrow> 'a list" where
  "js_slice start fin xs =
     (let len = int (length xs);
          k = (if start < 0 then max (len + start) 0 else min start len);
          e = (case fin of None \<Rightarrow> len | Some r \<Rightarrow> r);
          final = (if e < 0 then max (len + e) 0 else min e len)
      in take (nat (final - k)) (drop (nat k) xs))"

text \<open>
  \<^verbatim>\<open>users.slice(0, 3)\<close> and \<^verbatim>\<open>users.slice(3)\<close>. When \<open>users\<close> is not an array the
  body throws a TypeError before anything is rendered (at \<^verbatim>\<open>slice\<close>, or for a string
  at the first \<^verbatim>\<open>users.map\<close>).
\<close>

definition topThree :: "heap \<Rightarrow> jsval \<Rightarrow> js_error + jsval list" where
  "topThree h us =
     (case array_of h us of None \<Rightarrow> Inl TypeError | Some xs \<Rightarrow> Inr (js_slice 0 (Some 3) xs))"

definition rest :: "heap \<Rightarrow> jsval \<Rightarrow> js_error + jsval list" where
  "rest h us =
     (case array_of h us of None \<Rightarrow> Inl TypeError | Some xs \<Rightarrow> Inr (js_slice 3 None xs))"

text \<open>\<^verbatim>\<open>Array.prototype.indexOf\<close>: the first index holding a strictly equal value, else -1.\<close>

fun index_from :: "jsval list \<Rightarrow> jsval \<Rightarrow> int \<Rightarrow> int" where
  "index_from [] x k = -1"
| "index_from (y # ys) x k = (if y = x then k else index_from ys x (k + 1))"

definition indexOf :: "jsval list \<Rightarrow> jsval \<Rightarrow> int" where
  "indexOf xs x = index_from xs x 0"

text \<open>\<^verbatim>\<open>xs.map(f)\<close> where \<open>f\<close> may throw: the first exception ends the map.\<close>

fun map_throw :: "('a \<Rightarrow> js_error + 'b) \<Rightarrow> 'a list \<Rightarrow> js_error + 'b list" where
  "map_throw f [] = Inr []"
| "map_throw f (x # xs) =
     (case f x of
        Inl e \<Rightarrow> Inl e
      | Inr y \<Rightarrow> (case map_throw f xs of Inl e \<Rightarrow> Inl e | Inr ys \<Rightarrow> Inr (y # ys)))"

text \<open>
  The indexed read \<^verbatim>\<open>v[0]\<close>: a TypeError on \<^verbatim>\<open>undefined\<close> and \<^verbatim>\<open>null\<close>, the first
  code unit of a non-empty string, the first element of a non-empty array, an object's
  own property \<^verbatim>\<open>"0"\<close>, and \<^verbatim>\<open>undefined\<close> otherwise.
\<close>

fun first_of :: "heap \<Rightarrow> jsval \<Rightarrow> js_error + jsval" where
  "first_of h Undefined = Inl TypeError"
| "first_of h Null = Inl TypeError"
| "first_of h (Str s) = (case s of [] \<Rightarrow> Inr Undefined | c # cs \<Rightarrow> Inr (Str [c]))"
| "first_of h (Ref a) =
     (case cell_at h a of
        Some (HArr xs) \<Rightarrow> (case xs of [] \<Rightarrow> Inr Undefined | x # ys \<Rightarrow> Inr x)
      | Some (HObj fs) \<Rightarrow> (case map_of fs (ustr ''0'') of Some v \<Rightarrow> Inr v | None \<Rightarrow> Inr Undefined)
      | None \<Rightarrow> Inr Undefined)"
| "first_of h (Bool b) = Inr Undefined"
| "first_of h (Num n) = Inr Undefined"

text \<open>
  The method call \<^verbatim>\<open>v.toUpperCase()\<close>: only a string has that method (parsed JSON holds
  no functions); \<open>upper\<close> is the built-in Unicode upper-casing of a string.
\<close>

fun toUpperCase :: "(jsstring \<Rightarrow> jsstring) \<Rightarrow> jsval \<Rightarrow> js_error + jsval" where
  "toUpperCase upper (Str s) = Inr (Str (upper s))"
| "toUpperCase upper v = Inl TypeError"

text \<open>\<^verbatim>\<open>user.username[0].toUpperCase()\<close>, the avatar initial.\<close>

definition avatar_initial :: "(jsstring \<Rightarrow> jsstring) \<Rightarrow> heap \<Rightarrow> jsval \<Rightarrow> js_error + jsval" where
  "avatar_initial upper h user =
     bind_err (get_prop h user (ustr ''username''))
       (\<lambda>n. bind_err (first_of h n) (toUpperCase upper))"

record podium_entry =
  pd_key :: jsval
  pd_border :: string
  pd_initial :: jsval
  pd_name :: jsval
  pd_points :: jsval
  pd_rank :: int

record rest_row =
  rw_key :: jsval
  rw_rank :: int
  rw_initial :: jsval
  rw_name :: jsval
  rw_points :: jsval

text \<open>One podium card: the callback of \<^verbatim>\<open>topThree.map\<close>.\<close>

definition podium_card ::
    "(jsstring \<Rightarrow> jsstring) \<Rightarrow> heap \<Rightarrow> jsval list \<Rightarrow> jsval \<Rightarrow> js_error + podium_entry" where
  "podium_card upper h us user =
     (let rank = indexOf us user + 1 in
      bind_err (get_prop h user (ustr ''_id'')) (\<lambda>k.
      bind_err (avatar_initial upper h user) (\<lambda>ini.
      bind_err (get_prop h user (ustr ''username'')) (\<lambda>nm.
      bind_err (get_prop h user (ustr ''totalPoints'')) (\<lambda>pts.
        Inr \<lparr>pd_key = k,
             pd_border = (if rank = 1 then ''#FFD700'' else if rank = 2 then ''#C0C0C0''
                          else ''#CD7F32''),
             pd_initial = ini, pd_name = nm, pd_points = pts, pd_rank = rank\<rparr>)))))"

text \<open>One row of the remaining list: the callback of \<^verbatim>\<open>rest.map\<close>.\<close>

definition rest_card ::
    "(jsstring \<Rightarrow> jsstring) \<Rightarrow> heap \<Rightarrow> jsval list \<Rightarrow> jsval \<Rightarrow> js_error + rest_row" where
  "rest_card upper h us user =
     (let rank = indexOf us user + 1 in
      bind_err (get_prop h user (ustr ''_id'')) (\<lambda>k.
      bind_err (avatar_initial upper h user) (\<lambda>ini.
      bind_err (get_prop h user (ustr ''username'')) (\<lambda>nm.
      bind_err (get_prop h user (ustr ''totalPoints'')) (\<lambda>pts.
        Inr \<lparr>rw_key = k, rw_rank = rank, rw_initial = ini, rw_name = nm,
             rw_points = pts\<rparr>)))))"

definition render_podium ::
    "(jsstring \<Rightarrow> jsstring) \<Rightarrow> heap \<Rightarrow> jsval \<Rightarrow> js_error + podium_entry list" where
  "render_podium upper h us =
     (case array_of h us of
        None \<Rightarrow> Inl TypeError
      | Some xs \<Rightarrow> bind_err (topThree h us) (map_throw (podium_card upper h xs)))"

definition render_rest ::
    "(jsstring \<Rightarrow> jsstring) \<Rightarrow> heap \<Rightarrow> jsval \<Rightarrow> js_error + rest_row list" where
  "render_rest upper h us =
     (case array_of h us of
        None \<Rightarrow> Inl TypeError
      | Some xs \<Rightarrow> bind_err (rest h us) (map_throw (rest_card upper h xs)))"

text \<open>
  The claim-history section. \<open>fmt\<close> stands for
  \<^verbatim>\<open>format(new Date(t), "MMM dd, hh:mm a")\<close> of the date library, which throws a
  RangeError when \<open>t\<close> is not a valid date.
\<close>

record claim_row =
  cr_key :: jsval
  cr_name :: jsval
  cr_points :: jsval
  cr_time :: jsval

datatype history_view = NoClaims jsstring | ClaimRows "claim_row list"

definition claim_card ::
    "(jsval \<Rightarrow> js_error + jsstring) \<Rightarrow> heap \<Rightarrow> jsval \<Rightarrow> js_error + claim_row" where
  "claim_card fmt h claim =
     bind_err (get_prop h claim (ustr ''_id'')) (\<lambda>k.
     bind_err (get_prop h claim (ustr ''userId'')) (\<lambda>uid.
     bind_err (get_prop h claim (ustr ''pointsClaimed'')) (\<lambda>pts.
     bind_err (get_prop h claim (ustr ''timestamp'')) (\<lambda>ts.
     bind_err (if truthy ts then (case fmt ts of Inl e \<Rightarrow> Inl e | Inr t \<Rightarrow> Inr (Str t))
               else Inr (Str (ustr ''N/A''))) (\<lambda>tm.
       Inr \<lparr>cr_key = k,
            cr_name = js_or (get_opt h uid (ustr ''username'')) (Str (ustr ''Unknown User'')),
            cr_points = pts, cr_time = tm\<rparr>)))))"

definition render_history ::
    "(jsval \<Rightarrow> js_error + jsstring) \<Rightarrow> heap \<Rightarrow> jsval \<Rightarrow> js_error + history_view" where
  "render_history fmt h ch =
     bind_err (get_prop h ch (ustr ''length'')) (\<lambda>n.
       if n = Num 0 then Inr (NoClaims (ustr ''No claims recorded yet.''))
       else (case array_of h ch of
               None \<Rightarrow> Inl TypeError
             | Some cs \<Rightarrow>
                 (case map_throw (claim_card fmt h) cs of
                    Inl e \<Rightarrow> Inl e
                  | Inr rows \<Rightarrow> Inr (ClaimRows rows))))"

text \<open>The options of the participant selector: \<^verbatim>\<open>users.map\<close> in the controls.\<close>

definition select_option :: "heap \<Rightarrow> jsval \<Rightarrow> js_error + jsval \<times> jsval" where
  "select_option h u =
     bind_err (get_prop h u (ustr ''_id'')) (\<lambda>k.
     bind_err (get_prop h u (ustr ''username'')) (\<lambda>nm. Inr (k, nm)))"



record app_view =
  v_options :: "(jsval \<times> jsval) list"
  v_add_disabled :: bool
  v_claim_disabled :: bool
  v_error :: "jsval option"
  v_message :: "jsval option"
  v_podium :: "podium_entry list"
  v_rest :: "rest_row list"
  v_history :: history_view

text \<open>The whole body of \<^verbatim>\<open>App\<close>, in evaluation order.\<close>

definition App ::
    "(jsstring \<Rightarrow> jsstring) \<Rightarrow> (jsval \<Rightarrow> js_error + jsstring) \<Rightarrow> heap \<Rightarrow> app_state
      \<Rightarrow> js_error + app_view" where
  "App upper fmt h s =
     (case array_of h (users s) of
        None \<Rightarrow> Inl TypeError
      | Some xs \<Rightarrow>
          bind_err (map_throw (select_option h) xs) (\<lambda>opts.
          bind_err (render_podium upper h (users s)) (\<lambda>pod.
          bind_err (render_rest upper h (users s)) (\<lambda>rst.
          bind_err (render_history fmt h (claimHistory s)) (\<lambda>hist.
            Inr \<lparr>v_options = opts,
                 v_add_disabled = loading s,
                 v_claim_disabled = (loading s \<or> \<not> truthy (selectedUserId s)),
                 v_error = error_banner s,
                 v_message = (if truthy (message s) then Some (message s) else None),
                 v_podium = pod, v_rest = rst, v_history = hist\<rparr>)))))"

section \<open>The ranking and claim engine\<close>

text \<open>
  The client only displays what the server sends. The ranking table, the claim ledger
  and the claim processor that the specification describes are not part of the client's
  source; the definitions of this section follow the specification's text.
\<close>

text \<open>
  Modelled from the spec: the Participant of the data model (identifier, display name,
  total points). The identifier is the registration number.
\<close>

record participant =
  ident :: nat
  display_name :: string
  total_points :: nat

text \<open>
  Modelled from the spec: the ClaimRecord of the data model (participant identifier,
  points awarded, timestamp, sequence number).
\<close>

record claim_record =
  participant_id :: nat
  points :: nat
  timestamp :: nat
  seq :: nat

text \<open>
  Modelled from the spec: the engine's state, the Ranking Table (participants in
  registration order) and the Claim Ledger (records in append order).
\<close>

record engine =
  table :: "participant list"
  ledger :: "claim_record list"

text \<open>Modelled from the spec: the error taxonomy of the engine.\<close>

datatype engine_error = NotFoundError | ValidationError | InternalConsistencyError

text \<open>
  Modelled from the spec: the ranking order, total points descending, ties broken by
  earliest registration. An entry is a participant with its position in the table.
\<close>

definition outranks :: "nat \<times> participant \<Rightarrow> nat \<times> participant \<Rightarrow> bool" where
  "outranks a b \<longleftrightarrow>
     total_points (snd b) < total_points (snd a)
     \<or> (total_points (snd a) = total_points (snd b) \<and> fst a < fst b)"

text \<open>
  Modelled from the spec: the sort that \<^verbatim>\<open>getSnapshot\<close> recomputes on read, an
  insertion sort by the ranking order.
\<close>

fun insert_ranked ::
    "nat \<times> participant \<Rightarrow> (nat \<times> participant) list \<Rightarrow> (nat \<times> participant) list" where
  "insert_ranked a [] = [a]"
| "insert_ranked a (b # bs) = (if outranks a b then a # b # bs else b # insert_ranked a bs)"

text \<open>
  Modelled from the spec: the ranked order of a table, each participant paired with its
  registration position and sorted by the ranking order.
\<close>

definition ranked :: "participant list \<Rightarrow> (nat \<times> participant) list" where
  "ranked t = foldr insert_ranked (enumerate 0 t) []"

text \<open>Modelled from the spec: \<^verbatim>\<open>getSnapshot() \<rightarrow> RankingSnapshot\<close> of the Ranking Table.\<close>

definition getSnapshot :: "engine \<Rightarrow> participant list" where
  "getSnapshot e = map snd (ranked (table e))"

text \<open>
  Modelled from the spec: \<^verbatim>\<open>registerParticipant(name) \<rightarrow> Participant\<close>, with a
  ValidationError for an empty name.
\<close>

definition registerParticipant ::
    "string \<Rightarrow> engine \<Rightarrow> engine_error + participant \<times> engine" where
  "registerParticipant name e =
     (if name = [] then Inl ValidationError
      else (let p = \<lparr>ident = length (table e), display_name = name, total_points = 0\<rparr>
            in Inr (p, e\<lparr>table := table e @ [p]\<rparr>)))"

text \<open>
  Modelled from the spec: \<^verbatim>\<open>append(record) \<rightarrow> committedRecord\<close> of the Claim Ledger,
  which assigns the timestamp and the next sequence number.
\<close>

definition append_claim ::
    "nat \<Rightarrow> nat \<Rightarrow> nat \<Rightarrow> claim_record list \<Rightarrow> claim_record \<times> claim_record list" where
  "append_claim pid awarded now l =
     (let r = \<lparr>participant_id = pid, points = awarded, timestamp = now, seq = Suc (length l)\<rparr>
      in (r, l @ [r]))"

text \<open>
  Modelled from the spec: \<^verbatim>\<open>applyClaim(participantId, pointsAwarded) \<rightarrow> (newTotal,
  error)\<close> of the Ranking Table, with NotFoundError for an unknown participant.
\<close>

definition applyClaim ::
    "nat \<Rightarrow> nat \<Rightarrow> participant list \<Rightarrow> engine_error + nat \<times> participant list" where
  "applyClaim pid awarded t =
     (case find (\<lambda>p. ident p = pid) t of
        None \<Rightarrow> Inl NotFoundError
      | Some p \<Rightarrow>
          Inr (total_points p + awarded,
               map (\<lambda>q. if ident q = pid then q\<lparr>total_points := total_points q + awarded\<rparr>
                        else q) t))"

text \<open>
  Modelled from the spec: \<^verbatim>\<open>claim(participantId) \<rightarrow> (ClaimRecord, error)\<close> of the
  Claim Processor. The award policy is opaque: its draw \<open>awarded\<close> and the commit time
  \<open>now\<close> are inputs, and a draw that is not positive is a policy failure.
\<close>

definition claim :: "nat \<Rightarrow> nat \<Rightarrow> nat \<Rightarrow> engine \<Rightarrow> engine_error + claim_record \<times> engine" where
  "claim pid awarded now e =
     (if find (\<lambda>p. ident p = pid) (table e) = None then Inl NotFoundError
      else if awarded = 0 then Inl InternalConsistencyError
      else (case applyClaim pid awarded (table e) of
              Inl err \<Rightarrow> Inl err
            | Inr (newTotal, t') \<Rightarrow>
                (case append_claim pid awarded now (ledger e) of
                   (r, l') \<Rightarrow> Inr (r, \<lparr>table = t', ledger = l'\<rparr>))))"

text \<open>
  Modelled from the spec: \<^verbatim>\<open>history(limit, before?)\<close> of the Claim Ledger, newest
  first, with the optional cursor \<open>before_seq\<close> on the sequence number.
\<close>

definition history :: "nat \<Rightarrow> nat option \<Rightarrow> claim_record list \<Rightarrow> claim_record list" where
  "history limit before_seq l =
     take limit
       (filter (\<lambda>r. case before_seq of None \<Rightarrow> True | Some c \<Rightarrow> seq r < c) (rev l))"

text \<open>Modelled from the spec: the boundary operation \<^verbatim>\<open>listHistory(limit)\<close>.\<close>

definition listHistory :: "nat \<Rightarrow> engine \<Rightarrow> claim_record list" where
  "listHistory limit e = history limit None (ledger e)"

text \<open>
  Modelled from the spec: \<^verbatim>\<open>mergeRemote(records)\<close> of the Claim Ledger, which adds a
  pushed record to the locally cached ledger unless its sequence number is already there.
\<close>

fun mergeRemote :: "claim_record list \<Rightarrow> claim_record list \<Rightarrow> claim_record list" where
  "mergeRemote l [] = l"
| "mergeRemote l (r # rs) =
     mergeRemote (if seq r \<in> set (map seq l) then l else l @ [r]) rs"

text \<open>
  Modelled from the spec: the ledger invariant, sequence numbers gap-free and strictly
  increasing.
\<close>

definition gap_free :: "claim_record list \<Rightarrow> bool" where
  "gap_free l \<longleftrightarrow> map seq l = [1..<Suc (length l)]"

section \<open>Example data\<close>

text \<open>
  Instances of the library parameters and sample documents, used to run the model on
  concrete inputs: an upper-casing of the ASCII letters, a formatter that accepts numeric
  timestamps only, a leaderboard of four participants, and a history of two claims, the
  first of which has neither a participant nor a timestamp.
\<close>

definition sample_upper :: "jsstring \<Rightarrow> jsstring" where
  "sample_upper s = map (\<lambda>c. if 0x61 \<le> c \<and> c \<le> 0x7A then c - 0x20 else c) s"


definition sample_users_json :: json where
  "sample_users_json = JArr
     [JObj [(ustr ''_id'', JStr (ustr ''u1'')), (ustr ''username'', JStr (ustr ''ann'')),
            (ustr ''totalPoints'', JNum 30)],
      JObj [(ustr ''_id'', JStr (ustr ''u2'')), (ustr ''username'', JStr (ustr ''bob'')),
            (ustr ''totalPoints'', JNum 20)],
      JObj [(ustr ''_id'', JStr (ustr ''u3'')), (ustr ''username'', JStr (ustr ''cy'')),
            (ustr ''totalPoints'', JNum 10)],
      JObj [(ustr ''_id'', JStr (ustr ''u4'')), (ustr ''username'', JStr (ustr ''dee'')),
            (ustr ''totalPoints'', JNum 5)]]"

definition sample_claims_json :: json where
  "sample_claims_json = JArr
     [JObj [(ustr ''_id'', JStr (ustr ''c2'')), (ustr ''pointsClaimed'', JNum 3)],
      JObj [(ustr ''_id'', JStr (ustr ''c1'')),
            (ustr ''userId'', JObj [(ustr ''_id'', JStr (ustr ''u1'')),
                                    (ustr ''username'', JStr (ustr ''ann''))]),
            (ustr ''pointsClaimed'', JNum 7), (ustr ''timestamp'', JNum 1700000000000)]]"

text \<open>The store after parsing both documents: the users array is cell 4, the claims array cell 8.\<close>

definition sample_heap :: heap where
  "sample_heap = snd (materialize sample_claims_json (snd (materialize sample_users_json [])))"

text \<open>
  The scenario of the specification: A, B and C register in that order, A claims 10
  points, then B claims 20 (both at the same clock reading).
\<close>

definition scenario :: "engine_error + engine" where
  "scenario =
     bind_err (registerParticipant ''A'' \<lparr>table = [], ledger = []\<rparr>) (\<lambda>(a, e1).
     bind_err (registerParticipant ''B'' e1) (\<lambda>(b, e2).
     bind_err (registerParticipant ''C'' e2) (\<lambda>(c, e3).
     bind_err (claim (ident a) 10 1000 e3) (\<lambda>(r1, e4).
     bind_err (claim (ident b) 20 1000 e4) (\<lambda>(r2, e5). Inr e5)))))"

section \<open>Validation guards\<close>

lemma trim_empty_iff: "trim s = [] \<longleftrightarrow> (\<forall>c \<in> set s. is_ws c)"
proof -
  have "trim s = [] \<longleftrightarrow> (\<forall>c \<in> set (dropWhile is_ws s). is_ws c)"
    by (simp add: trim_def)
  also have "\<dots> \<longleftrightarrow> (\<forall>c \<in> set s. is_ws c)"
  proof
    assume all: "\<forall>c \<in> set (dropWhile is_ws s). is_ws c"
    have "dropWhile is_ws s = []"
    proof (rule ccontr)
      assume ne: "dropWhile is_ws s \<noteq> []"
      then have "\<not> is_ws (hd (dropWhile is_ws s))" by (rule hd_dropWhile)
      moreover from ne have "hd (dropWhile is_ws s) \<in> set (dropWhile is_ws s)" by simp
      ultimately show False using all by blast
    qed
    then show "\<forall>c \<in> set s. is_ws c" by simp
  next
    assume "\<forall>c \<in> set s. is_ws c"
    then show "\<forall>c \<in> set (dropWhile is_ws s). is_ws c"
      by (blast dest: set_dropWhileD)
  qed
  finally show ?thesis .
qed

text \<open>
  C1. When the entered name is empty or consists only of whitespace, \<^verbatim>\<open>handleAddUser\<close>
  surfaces the validation message and does nothing else: no request is issued, and the
  participant list, the claim history, the entered name and every other state cell but
  \<open>error\<close> are as before.
\<close>

theorem handleAddUser_blank_name:
  assumes "\<forall>c \<in> set (newUserName s). is_ws c"
  shows "handleAddUser s = (s\<lparr>error := Str (ustr ''User name cannot be empty.'')\<rparr>, [])
    \<and> error_banner (fst (handleAddUser s)) = Some (Str (ustr ''User name cannot be empty.''))
    \<and> snd (handleAddUser s) = []
    \<and> users (fst (handleAddUser s)) = users s
    \<and> claimHistory (fst (handleAddUser s)) = claimHistory s
    \<and> newUserName (fst (handleAddUser s)) = newUserName s"
proof -
  from assms have "trim (newUserName s) = []" by (simp add: trim_empty_iff)
  then show ?thesis by (simp add: handleAddUser_def error_banner_def ustr_def)
qed

theorem handleAddUser_blank_name_witness:
  "list_all is_ws (newUserName \<lparr>users = Ref 0, selectedUserId = Str [], newUserName = ustr '' '',
        message = Str [], loading = False, error = Str [], claimHistory = Ref 1\<rparr>)
   \<and> handleAddUser \<lparr>users = Ref 0, selectedUserId = Str [], newUserName = ustr '' '',
        message = Str [], loading = False, error = Str [], claimHistory = Ref 1\<rparr>
     = (\<lparr>users = Ref 0, selectedUserId = Str [], newUserName = ustr '' '',
        message = Str [], loading = False, error = Str (ustr ''User name cannot be empty.''),
        claimHistory = Ref 1\<rparr>, [])"
  using handleAddUser_blank_name [of "\<lparr>users = Ref 0, selectedUserId = Str [],
        newUserName = ustr '' '', message = Str [], loading = False, error = Str [],
        claimHistory = Ref 1\<rparr>"]
  by (simp add: is_ws_def ustr_def)

text \<open>With a truthy selection the handler goes on to post the claim.\<close>

lemma handleClaimPoints_selected:
  "truthy (selectedUserId s) \<Longrightarrow>
     snd (handleClaimPoints s) = [HttpPost Claims [(ustr ''userId'', selectedUserId s)]]"
  by (simp add: handleClaimPoints_def)




section \<open>Push updates\<close>

text \<open>
  C3. After a \<^verbatim>\<open>leaderboard_update\<close> event the participant view is the snapshot the
  event carried, whole: the \<open>users\<close> cell equals the payload, and the podium and the
  remaining list rendered from it do not depend on the state held before the event.
\<close>

theorem leaderboard_update_replaces_view:
  "users (fst (on_leaderboard_update snapshot s)) = snapshot
   \<and> users (fst (on_leaderboard_update snapshot s)) = users (fst (on_leaderboard_update snapshot s'))
   \<and> render_podium upper h (users (fst (on_leaderboard_update snapshot s)))
       = render_podium upper h snapshot
   \<and> render_rest upper h (users (fst (on_leaderboard_update snapshot s)))
       = render_rest upper h snapshot"
  by (simp add: on_leaderboard_update_def)

section \<open>The leaderboard sections\<close>

lemma map_throw_Inr_iff:
  "map_throw f xs = Inr ys \<longleftrightarrow> list_all2 (\<lambda>x y. f x = Inr y) xs ys"
proof (induction xs arbitrary: ys)
  case Nil
  show ?case by auto
next
  case (Cons x xs)
  show ?case
  proof (cases "f x")
    case (Inl e)
    then show ?thesis by (simp add: list_all2_Cons1)
  next
    case fx: (Inr y)
    show ?thesis
    proof (cases "map_throw f xs")
      case (Inl e)
      have "\<not> list_all2 (\<lambda>x y. f x = Inr y) xs zs" for zs
        using Cons.IH [of zs] Inl by simp
      with Inl fx show ?thesis by (simp add: list_all2_Cons1)
    next
      case (Inr zs)
      have "list_all2 (\<lambda>x y. f x = Inr y) xs ws \<longleftrightarrow> zs = ws" for ws
        using Cons.IH [of ws] Inr by simp
      with Inr fx show ?thesis by (auto simp add: list_all2_Cons1)
    qed
  qed
qed

lemma js_slice_top: "js_slice 0 (Some 3) xs = take 3 xs"
  by (auto simp: js_slice_def Let_def min_def)

lemma js_slice_rest: "js_slice 3 None xs = drop 3 xs"
  by (auto simp: js_slice_def Let_def min_def)

lemma podium_card_key:
  "podium_card upper h us u = Inr c \<Longrightarrow> get_prop h u (ustr ''_id'') = Inr (pd_key c)"
  by (auto simp: podium_card_def bind_err_def Let_def split: sum.splits)

lemma rest_card_key:
  "rest_card upper h us u = Inr c \<Longrightarrow> get_prop h u (ustr ''_id'') = Inr (rw_key c)"
  by (auto simp: rest_card_def bind_err_def Let_def split: sum.splits)

text \<open>
  C9. The podium and the remaining list partition the snapshot list: the podium takes
  the first \<open>min 3 (length xs)\<close> entries, the remaining list takes the entries from
  index 3 on, in order, and together they are the whole list. When both sections render,
  their cards correspond one to one, in order, to the entries of the list, so every
  participant is displayed exactly once.
\<close>

theorem podium_rest_partition:
  assumes "array_of h us = Some xs"
  shows "topThree h us = Inr (take (min 3 (length xs)) xs)
    \<and> rest h us = Inr (drop 3 xs)
    \<and> take (min 3 (length xs)) xs @ drop 3 xs = xs
    \<and> (\<forall>ps rs. render_podium upper h us = Inr ps \<and> render_rest upper h us = Inr rs \<longrightarrow>
          length ps = min 3 (length xs) \<and> length ps + length rs = length xs
          \<and> list_all2 (\<lambda>u k. get_prop h u (ustr ''_id'') = Inr k) xs (map pd_key ps @ map rw_key rs))"
proof -
  have top: "topThree h us = Inr (take 3 xs)"
    using assms by (simp add: topThree_def js_slice_top)
  have rst: "rest h us = Inr (drop 3 xs)"
    using assms by (simp add: rest_def js_slice_rest)
  have tk: "take (min 3 (length xs)) xs = take 3 xs" by (simp add: min_def)
  have cards: "length ps = min 3 (length xs) \<and> length ps + length rs = length xs
      \<and> list_all2 (\<lambda>u k. get_prop h u (ustr ''_id'') = Inr k) xs (map pd_key ps @ map rw_key rs)"
    if p: "render_podium upper h us = Inr ps" and r: "render_rest upper h us = Inr rs" for ps rs
  proof -
    from p have lp: "list_all2 (\<lambda>u c. podium_card upper h xs u = Inr c) (take 3 xs) ps"
      using assms top by (simp add: render_podium_def bind_err_def map_throw_Inr_iff)
    from r have lr: "list_all2 (\<lambda>u c. rest_card upper h xs u = Inr c) (drop 3 xs) rs"
      using assms rst by (simp add: render_rest_def bind_err_def map_throw_Inr_iff)
    from lp have kp: "list_all2 (\<lambda>u k. get_prop h u (ustr ''_id'') = Inr k) (take 3 xs) (map pd_key ps)"
      by (auto simp: list_all2_map2 elim!: list_all2_mono dest: podium_card_key)
    from lr have kr: "list_all2 (\<lambda>u k. get_prop h u (ustr ''_id'') = Inr k) (drop 3 xs) (map rw_key rs)"
      by (auto simp: list_all2_map2 elim!: list_all2_mono dest: rest_card_key)
    from kp kr have "list_all2 (\<lambda>u k. get_prop h u (ustr ''_id'') = Inr k)
        (take 3 xs @ drop 3 xs) (map pd_key ps @ map rw_key rs)"
      by (rule list_all2_appendI)
    moreover from list_all2_lengthD [OF lp] have "length ps = min 3 (length xs)"
      by (auto simp: min_def split: if_splits)
    moreover from list_all2_lengthD [OF lr] have "length rs = length xs - 3"
      by simp
    ultimately show ?thesis by (simp add: min_def)
  qed
  from top tk have c1: "topThree h us = Inr (take (min 3 (length xs)) xs)" by simp
  have c3: "take (min 3 (length xs)) xs @ drop 3 xs = xs" by (simp add: tk)
  have c4: "\<forall>ps rs. render_podium upper h us = Inr ps \<and> render_rest upper h us = Inr rs \<longrightarrow>
          length ps = min 3 (length xs) \<and> length ps + length rs = length xs
          \<and> list_all2 (\<lambda>u k. get_prop h u (ustr ''_id'') = Inr k) xs (map pd_key ps @ map rw_key rs)"
    using cards by blast
  show ?thesis by (rule conjI [OF c1 conjI [OF rst conjI [OF c3 c4]]])
qed

theorem podium_rest_partition_witness:
  "topThree sample_heap (Ref 4) = Inr [Ref 0, Ref 1, Ref 2]
   \<and> rest sample_heap (Ref 4) = Inr [Ref 3]
   \<and> length (projr (render_podium sample_upper sample_heap (Ref 4)))
       + length (projr (render_rest sample_upper sample_heap (Ref 4))) = 4"
proof -
  have a: "array_of sample_heap (Ref 4) = Some [Ref 0, Ref 1, Ref 2, Ref 3]" by code_simp
  have p: "render_podium sample_upper sample_heap (Ref 4)
      = Inr (projr (render_podium sample_upper sample_heap (Ref 4)))" by code_simp
  have r: "render_rest sample_upper sample_heap (Ref 4)
      = Inr (projr (render_rest sample_upper sample_heap (Ref 4)))" by code_simp
  note t = podium_rest_partition [OF a, of sample_upper]
  from t have c1: "topThree sample_heap (Ref 4) = Inr [Ref 0, Ref 1, Ref 2]" by simp
  from t have c2: "rest sample_heap (Ref 4) = Inr [Ref 3]" by simp
  from t have "\<forall>ps rs. render_podium sample_upper sample_heap (Ref 4) = Inr ps
      \<and> render_rest sample_upper sample_heap (Ref 4) = Inr rs
      \<longrightarrow> length ps + length rs = length [Ref 0, Ref 1, Ref 2, Ref 3]" by blast
  with p r have "length (projr (render_podium sample_upper sample_heap (Ref 4)))
       + length (projr (render_rest sample_upper sample_heap (Ref 4)))
       = length [Ref 0, Ref 1, Ref 2, Ref 3]" by blast
  with c1 c2 show ?thesis by simp
qed

section \<open>Ranks\<close>

lemma refs_of_set: "a \<in> set (refs_of vs) \<longleftrightarrow> Ref a \<in> set vs"
  by (induction vs rule: refs_of.induct) auto

lemma materialize_bounds:
  "materialize j h = (v, h') \<Longrightarrow>
     length h \<le> length h' \<and> (\<forall>a. v = Ref a \<longrightarrow> length h \<le> a \<and> a < length h')"
  "materialize_list js h = (vs, h') \<Longrightarrow>
     length h \<le> length h' \<and> (\<forall>a \<in> set (refs_of vs). length h \<le> a \<and> a < length h')
     \<and> distinct (refs_of vs)"
  "materialize_fields fs h = (fvs, h') \<Longrightarrow> length h \<le> length h'"
proof (induction j h and js h and fs h arbitrary: v h' and vs h' and fvs h'
       rule: materialize_materialize_list_materialize_fields.induct)
  case (1 h)
  then show ?case by auto
next
  case (2 b h)
  then show ?case by auto
next
  case (3 n h)
  then show ?case by auto
next
  case (4 s h)
  then show ?case by auto
next
  case (5 js h)
  obtain ws h1 where ml: "materialize_list js h = (ws, h1)" by (cases "materialize_list js h")
  from "5.IH" [OF ml] have e1: "length h \<le> length h1" by blast
  from "5.prems" ml have "v = Ref (length h1)" "h' = h1 @ [HArr ws]" by simp_all
  with e1 show ?case by simp
next
  case (6 fs h)
  obtain ws h1 where ml: "materialize_fields fs h = (ws, h1)" by (cases "materialize_fields fs h")
  from "6.IH" [OF ml] have e1: "length h \<le> length h1" .
  from "6.prems" ml have "v = Ref (length h1)" "h' = h1 @ [HObj (rev ws)]" by simp_all
  with e1 show ?case by simp
next
  case (7 h)
  then show ?case by auto
next
  case (8 j js h)
  obtain w h1 where m: "materialize j h = (w, h1)" by (cases "materialize j h")
  obtain ws h2 where ml: "materialize_list js h1 = (ws, h2)" by (cases "materialize_list js h1")
  from "8.prems" m ml have vs: "vs = w # ws" and h': "h' = h2" by simp_all
  from "8.IH"(1) [OF m] have e1: "length h \<le> length h1"
    and wb: "\<forall>a. w = Ref a \<longrightarrow> length h \<le> a \<and> a < length h1" by blast+
  from "8.IH"(2) [OF m [symmetric] ml] have e2: "length h1 \<le> length h2"
    and wsb: "\<forall>a \<in> set (refs_of ws). length h1 \<le> a \<and> a < length h2"
    and d: "distinct (refs_of ws)" by blast+
  have ext: "length h \<le> length h'" using e1 e2 h' by simp
  have bnd: "\<forall>a \<in> set (refs_of vs). length h \<le> a \<and> a < length h'"
  proof
    fix a assume "a \<in> set (refs_of vs)"
    then have "w = Ref a \<or> a \<in> set (refs_of ws)" unfolding vs by (cases w) auto
    then show "length h \<le> a \<and> a < length h'"
      using wb wsb e1 e2 h' by fastforce
  qed
  have dist: "distinct (refs_of vs)"
  proof (cases w)
    case (Ref a)
    with wb have "a < length h1" by simp
    with wsb have "a \<notin> set (refs_of ws)" by fastforce
    with d Ref vs show ?thesis by simp
  qed (use d vs in simp_all)
  from ext bnd dist show ?case by blast
next
  case (9 h)
  then show ?case by auto
next
  case (10 k j fs h)
  obtain w h1 where m: "materialize j h = (w, h1)" by (cases "materialize j h")
  obtain ws h2 where ml: "materialize_fields fs h1 = (ws, h2)" by (cases "materialize_fields fs h1")
  from "10.prems" m ml have h': "h' = h2" by simp
  from "10.IH"(1) [OF m] have e1: "length h \<le> length h1" by blast
  from "10.IH"(2) [OF m [symmetric] ml] have e2: "length h1 \<le> length h2" .
  show ?case using e1 e2 h' by simp
qed

lemma index_from_first:
  "i < length xs \<Longrightarrow> \<forall>j < i. xs ! j \<noteq> xs ! i \<Longrightarrow> index_from xs (xs ! i) k = k + int i"
proof (induction xs arbitrary: i k)
  case Nil
  then show ?case by simp
next
  case (Cons y ys)
  show ?case
  proof (cases i)
    case 0
    then show ?thesis by simp
  next
    case (Suc n)
    with Cons.prems have ne: "y \<noteq> ys ! n" by fastforce
    from Suc Cons.prems have "\<forall>j < n. ys ! j \<noteq> ys ! n" by fastforce
    with Cons.IH [of n "k + 1"] Suc Cons.prems(1)
    have "index_from ys (ys ! n) (k + 1) = k + 1 + int n" by simp
    with ne Suc show ?thesis by simp
  qed
qed

lemma distinct_refs_tl: "distinct (refs_of (v # vs)) \<Longrightarrow> distinct (refs_of vs)"
  by (cases v) simp_all

lemma distinct_refs_nth:
  "distinct (refs_of vs) \<Longrightarrow> i < length vs \<Longrightarrow> j < i \<Longrightarrow> vs ! i = Ref a \<Longrightarrow> vs ! j \<noteq> Ref a"
proof (induction vs arbitrary: i j)
  case Nil
  then show ?case by simp
next
  case (Cons v vs)
  from Cons.prems(2,3) obtain n where i: "i = Suc n" and n: "n < length vs"
    by (cases i) simp_all
  from Cons.prems(4) i have vn: "vs ! n = Ref a" by simp
  show ?case
  proof (cases j)
    case 0
    have "v \<noteq> Ref a"
    proof
      assume v: "v = Ref a"
      with Cons.prems(1) have "a \<notin> set (refs_of vs)" by simp
      moreover from n vn have "Ref a \<in> set vs" using nth_mem [of n vs] by simp
      ultimately show False by (simp add: refs_of_set)
    qed
    with 0 show ?thesis by simp
  next
    case (Suc m)
    with Cons.prems(3) i have "m < n" by simp
    from Cons.IH [OF distinct_refs_tl [OF Cons.prems(1)] n this vn] Suc
    show ?thesis by simp
  qed
qed

lemma indexOf_position:
  assumes "distinct (refs_of xs)" "i < length xs" "xs ! i = Ref a"
  shows "indexOf xs (xs ! i) = int i"
proof -
  have "\<forall>j < i. xs ! j \<noteq> xs ! i"
    using distinct_refs_nth [OF assms(1,2) _ assms(3)] assms(3) by simp
  from index_from_first [OF assms(2) this, of 0] show ?thesis by (simp add: indexOf_def)
qed

lemma avatar_initial_Ref: "avatar_initial upper h u = Inr v \<Longrightarrow> \<exists>a. u = Ref a"
  by (cases u) (auto simp: avatar_initial_def bind_err_def ustr_def)

lemma podium_card_rank:
  "podium_card upper h us u = Inr c \<Longrightarrow> pd_rank c = indexOf us u + 1 \<and> (\<exists>a. u = Ref a)"
  by (auto simp: podium_card_def bind_err_def Let_def split: sum.splits dest: avatar_initial_Ref)

lemma rest_card_rank:
  "rest_card upper h us u = Inr c \<Longrightarrow> rw_rank c = indexOf us u + 1 \<and> (\<exists>a. u = Ref a)"
  by (auto simp: rest_card_def bind_err_def Let_def split: sum.splits dest: avatar_initial_Ref)

lemma materialize_array_distinct:
  assumes "materialize payload h0 = (us, h1)" and "array_of (h1 @ ext) us = Some xs"
  shows "distinct (refs_of xs)"
proof (cases payload)
  case (JArr js)
  obtain vs h' where ml: "materialize_list js h0 = (vs, h')" by (cases "materialize_list js h0")
  with assms(1) JArr have "us = Ref (length h')" "h1 = h' @ [HArr vs]" by simp_all
  with assms(2) have "xs = vs" by (simp add: array_of_def cell_at_def nth_append)
  with materialize_bounds(2) [OF ml] show ?thesis by simp
next
  case (JObj fs)
  obtain vs h' where ml: "materialize_fields fs h0 = (vs, h')" by (cases "materialize_fields fs h0")
  with assms(1) JObj have "us = Ref (length h')" "h1 = h' @ [HObj (rev vs)]" by simp_all
  with assms(2) show ?thesis by (simp add: array_of_def cell_at_def nth_append)
qed (use assms in \<open>auto simp: array_of_def\<close>)

text \<open>
  C4. The rank shown for a participant is its 1-based position in the snapshot list. The
  list is an array of parsed JSON, so its participant objects are distinct references and
  \<^verbatim>\<open>users.indexOf(user)\<close> finds each one at its own index; nothing is read from the
  participant to obtain the rank. In list order, the ranks on the podium followed by the
  ranks of the remaining rows are 1, 2, ..., \<open>length xs\<close>.
\<close>

theorem rank_is_position:
  assumes "materialize payload h0 = (us, h1)"
    and "array_of (h1 @ ext) us = Some xs"
    and "render_podium upper (h1 @ ext) us = Inr ps"
    and "render_rest upper (h1 @ ext) us = Inr rs"
  shows "map pd_rank ps @ map rw_rank rs = map (\<lambda>i. int i + 1) [0..<length xs]"
proof -
  let ?h = "h1 @ ext"
  have d: "distinct (refs_of xs)" using assms(1,2) by (rule materialize_array_distinct)
  have lp: "list_all2 (\<lambda>u c. podium_card upper ?h xs u = Inr c) (take 3 xs) ps"
    using assms(2,3)
    by (simp add: render_podium_def topThree_def bind_err_def map_throw_Inr_iff js_slice_top)
  have lr: "list_all2 (\<lambda>u c. rest_card upper ?h xs u = Inr c) (drop 3 xs) rs"
    using assms(2,4)
    by (simp add: render_rest_def rest_def bind_err_def map_throw_Inr_iff js_slice_rest)
  have np: "length ps = min 3 (length xs)"
    using list_all2_lengthD [OF lp] by (auto simp: min_def split: if_splits)
  have nr: "length rs = length xs - 3"
    using list_all2_lengthD [OF lr] by simp
  have pr: "pd_rank (ps ! i) = int i + 1" if "i < length ps" for i
  proof -
    from that np have i: "i < length xs" "i < 3" by simp_all
    from list_all2_nthD2 [OF lp that] i
    have "podium_card upper ?h xs (xs ! i) = Inr (ps ! i)" by simp
    from podium_card_rank [OF this] indexOf_position [OF d i(1)] show ?thesis by auto
  qed
  have rr: "rw_rank (rs ! i) = int (i + 3) + 1" if "i < length rs" for i
  proof -
    from that nr have i: "i + 3 < length xs" by simp
    from list_all2_nthD2 [OF lr that] i
    have "rest_card upper ?h xs (xs ! (i + 3)) = Inr (rs ! i)" by (simp add: add.commute)
    from rest_card_rank [OF this] indexOf_position [OF d i] show ?thesis by auto
  qed
  show ?thesis
  proof (rule nth_equalityI)
    show "length (map pd_rank ps @ map rw_rank rs) = length (map (\<lambda>i. int i + 1) [0..<length xs])"
      using np nr by (simp add: min_def)
  next
    fix i assume "i < length (map pd_rank ps @ map rw_rank rs)"
    then have i: "i < length xs" using np nr by (simp add: min_def split: if_splits)
    show "(map pd_rank ps @ map rw_rank rs) ! i = map (\<lambda>i. int i + 1) [0..<length xs] ! i"
    proof (cases "i < length ps")
      case True
      with pr [OF True] i show ?thesis by (simp add: nth_append)
    next
      case False
      with i np nr have j: "i - length ps < length rs" "length ps = 3"
        by (auto simp: min_def split: if_splits)
      from rr [OF j(1)] False i j show ?thesis by (simp add: nth_append)
    qed
  qed
qed

theorem rank_is_position_witness:
  "map pd_rank (projr (render_podium sample_upper (snd (materialize sample_users_json [])) (Ref 4)))
   @ map rw_rank (projr (render_rest sample_upper (snd (materialize sample_users_json [])) (Ref 4)))
   = [1, 2, 3, 4]"
proof -
  let ?h = "snd (materialize sample_users_json [])"
  have m: "materialize sample_users_json [] = (Ref 4, ?h)" by code_simp
  have a: "array_of (?h @ []) (Ref 4) = Some [Ref 0, Ref 1, Ref 2, Ref 3]" by code_simp
  have p: "render_podium sample_upper (?h @ []) (Ref 4)
      = Inr (projr (render_podium sample_upper ?h (Ref 4)))" by code_simp
  have r: "render_rest sample_upper (?h @ []) (Ref 4)
      = Inr (projr (render_rest sample_upper ?h (Ref 4)))" by code_simp
  have "map (\<lambda>i. int i + 1) [0..<length [Ref 0, Ref 1, Ref 2, Ref 3]] = [1, 2, 3, 4]"
    by code_simp
  with rank_is_position [OF m a p r] show ?thesis by simp
qed

section \<open>Avatar initials and the claim history\<close>

lemma map_throw_total:
  "\<forall>x \<in> set xs. \<exists>y. f x = Inr y \<Longrightarrow> \<exists>ys. map_throw f xs = Inr ys"
  by (induction xs) auto

lemma get_prop_defined:
  "get_prop h u k = Inr v \<Longrightarrow> \<exists>w. get_prop h u k' = Inr w"
  by (cases u) (auto split: option.splits cell.splits)

lemma avatar_initial_nonempty:
  "get_prop h u (ustr ''username'') = Inr (Str (c # cs)) \<Longrightarrow>
     avatar_initial upper h u = Inr (Str (upper [c]))"
  by (simp add: avatar_initial_def bind_err_def)

lemma podium_card_total:
  assumes "get_prop h u (ustr ''username'') = Inr (Str (c # cs))"
  shows "\<exists>card. podium_card upper h us u = Inr card \<and> pd_initial card = Str (upper [c])"
proof -
  from get_prop_defined [OF assms] obtain k where k: "get_prop h u (ustr ''_id'') = Inr k" by blast
  from get_prop_defined [OF assms] obtain p where p: "get_prop h u (ustr ''totalPoints'') = Inr p"
    by blast
  show ?thesis
    using assms k p avatar_initial_nonempty [OF assms, of upper]
    by (simp add: podium_card_def bind_err_def Let_def)
qed

lemma rest_card_total:
  assumes "get_prop h u (ustr ''username'') = Inr (Str (c # cs))"
  shows "\<exists>card. rest_card upper h us u = Inr card \<and> rw_initial card = Str (upper [c])"
proof -
  from get_prop_defined [OF assms] obtain k where k: "get_prop h u (ustr ''_id'') = Inr k" by blast
  from get_prop_defined [OF assms] obtain p where p: "get_prop h u (ustr ''totalPoints'') = Inr p"
    by blast
  show ?thesis
    using assms k p avatar_initial_nonempty [OF assms, of upper]
    by (simp add: rest_card_def bind_err_def Let_def)
qed

lemma podium_card_initial:
  "podium_card upper h us u = Inr c \<Longrightarrow> avatar_initial upper h u = Inr (pd_initial c)"
  by (auto simp: podium_card_def bind_err_def Let_def split: sum.splits)

lemma rest_card_initial:
  "rest_card upper h us u = Inr c \<Longrightarrow> avatar_initial upper h u = Inr (rw_initial c)"
  by (auto simp: rest_card_def bind_err_def Let_def split: sum.splits)

text \<open>
  C8. When every participant of the snapshot has a non-empty string as its
  \<^verbatim>\<open>username\<close>, the avatar initial \<^verbatim>\<open>user.username[0].toUpperCase()\<close> is defined for
  every entry (it is the upper-cased first code unit), and neither the podium nor the
  remaining list throws.
\<close>

theorem avatar_initial_total:
  assumes arr: "array_of h us = Some xs"
    and names: "\<forall>u \<in> set xs. \<exists>c cs. get_prop h u (ustr ''username'') = Inr (Str (c # cs))"
  shows "(\<forall>u \<in> set xs. \<exists>c cs. get_prop h u (ustr ''username'') = Inr (Str (c # cs))
            \<and> avatar_initial upper h u = Inr (Str (upper [c])))
    \<and> (\<exists>ps rs. render_podium upper h us = Inr ps \<and> render_rest upper h us = Inr rs
          \<and> list_all2 (\<lambda>u i. avatar_initial upper h u = Inr i) xs
               (map pd_initial ps @ map rw_initial rs))"
proof
  show "\<forall>u \<in> set xs. \<exists>c cs. get_prop h u (ustr ''username'') = Inr (Str (c # cs))
            \<and> avatar_initial upper h u = Inr (Str (upper [c]))"
    using names avatar_initial_nonempty by blast
next
  have "\<forall>u \<in> set (take 3 xs). \<exists>card. podium_card upper h xs u = Inr card"
    using names podium_card_total by (blast dest: in_set_takeD)
  from map_throw_total [OF this] obtain ps
    where ps: "map_throw (podium_card upper h xs) (take 3 xs) = Inr ps" by blast
  have "\<forall>u \<in> set (drop 3 xs). \<exists>card. rest_card upper h xs u = Inr card"
    using names rest_card_total by (blast dest: in_set_dropD)
  from map_throw_total [OF this] obtain rs
    where rs: "map_throw (rest_card upper h xs) (drop 3 xs) = Inr rs" by blast
  have rp: "render_podium upper h us = Inr ps"
    using arr ps by (simp add: render_podium_def topThree_def bind_err_def js_slice_top)
  have rr: "render_rest upper h us = Inr rs"
    using arr rs by (simp add: render_rest_def rest_def bind_err_def js_slice_rest)
  from ps have "list_all2 (\<lambda>u i. avatar_initial upper h u = Inr i) (take 3 xs) (map pd_initial ps)"
    by (auto simp: map_throw_Inr_iff list_all2_map2 elim!: list_all2_mono dest: podium_card_initial)
  moreover from rs
  have "list_all2 (\<lambda>u i. avatar_initial upper h u = Inr i) (drop 3 xs) (map rw_initial rs)"
    by (auto simp: map_throw_Inr_iff list_all2_map2 elim!: list_all2_mono dest: rest_card_initial)
  ultimately have "list_all2 (\<lambda>u i. avatar_initial upper h u = Inr i) (take 3 xs @ drop 3 xs)
      (map pd_initial ps @ map rw_initial rs)"
    by (rule list_all2_appendI)
  then have "list_all2 (\<lambda>u i. avatar_initial upper h u = Inr i) xs
      (map pd_initial ps @ map rw_initial rs)" by simp
  with rp rr show "\<exists>ps rs. render_podium upper h us = Inr ps \<and> render_rest upper h us = Inr rs
          \<and> list_all2 (\<lambda>u i. avatar_initial upper h u = Inr i) xs
               (map pd_initial ps @ map rw_initial rs)" by blast
qed

theorem avatar_initial_total_witness:
  "avatar_initial sample_upper sample_heap (Ref 3) = Inr (Str (ustr ''D''))
   \<and> map pd_initial (projr (render_podium sample_upper sample_heap (Ref 4)))
       = [Str (ustr ''A''), Str (ustr ''B''), Str (ustr ''C'')]
   \<and> map rw_initial (projr (render_rest sample_upper sample_heap (Ref 4))) = [Str (ustr ''D'')]"
proof -
  have a: "array_of sample_heap (Ref 4) = Some [Ref 0, Ref 1, Ref 2, Ref 3]" by code_simp
  have n: "\<forall>u \<in> set [Ref 0, Ref 1, Ref 2, Ref 3].
      \<exists>c cs. get_prop sample_heap u (ustr ''username'') = Inr (Str (c # cs))"
  proof -
    have "get_prop sample_heap (Ref 0) (ustr ''username'') = Inr (Str (0x61 # ustr ''nn''))"
      "get_prop sample_heap (Ref 1) (ustr ''username'') = Inr (Str (0x62 # ustr ''ob''))"
      "get_prop sample_heap (Ref 2) (ustr ''username'') = Inr (Str (0x63 # ustr ''y''))"
      "get_prop sample_heap (Ref 3) (ustr ''username'') = Inr (Str (0x64 # ustr ''ee''))"
      by code_simp+
    then show ?thesis by auto
  qed
  from avatar_initial_total [OF a n, of sample_upper]
  obtain c cs where "get_prop sample_heap (Ref 3) (ustr ''username'') = Inr (Str (c # cs))"
    and i: "avatar_initial sample_upper sample_heap (Ref 3) = Inr (Str (sample_upper [c]))"
    by auto
  moreover have "get_prop sample_heap (Ref 3) (ustr ''username'') = Inr (Str (0x64 # ustr ''ee''))"
    by code_simp
  ultimately have "c = 0x64" by simp
  moreover have "sample_upper [0x64] = ustr ''D''" by code_simp
  ultimately have c1: "avatar_initial sample_upper sample_heap (Ref 3) = Inr (Str (ustr ''D''))"
    using i by simp
  have c2: "map pd_initial (projr (render_podium sample_upper sample_heap (Ref 4)))
       = [Str (ustr ''A''), Str (ustr ''B''), Str (ustr ''C'')]" by code_simp
  have c3: "map rw_initial (projr (render_rest sample_upper sample_heap (Ref 4))) = [Str (ustr ''D'')]"
    by code_simp
  from c1 c2 c3 show ?thesis by blast
qed




section \<open>Snapshots, history and merging in the engine\<close>

lemma outranks_trans: "outranks a b \<Longrightarrow> outranks b c \<Longrightarrow> outranks a c"
  by (auto simp: outranks_def)

lemma outranks_total: "fst a \<noteq> fst b \<Longrightarrow> \<not> outranks a b \<Longrightarrow> outranks b a"
  by (auto simp: outranks_def)

lemma outranks_asym: "outranks a b \<Longrightarrow> \<not> outranks b a"
  by (auto simp: outranks_def)

lemma set_insert_ranked: "set (insert_ranked a bs) = insert a (set bs)"
  by (induction bs) auto

lemma sorted_insert_ranked:
  "sorted_wrt outranks bs \<Longrightarrow> fst a \<notin> fst ` set bs \<Longrightarrow> sorted_wrt outranks (insert_ranked a bs)"
proof (induction bs)
  case Nil
  then show ?case by simp
next
  case (Cons b bs)
  show ?case
  proof (cases "outranks a b")
    case True
    with Cons.prems(1) have "\<forall>c \<in> set bs. outranks a c"
      by (auto intro: outranks_trans)
    with True Cons.prems(1) show ?thesis by simp
  next
    case False
    with Cons.prems(2) have ba: "outranks b a" by (auto intro: outranks_total)
    from Cons.prems have "sorted_wrt outranks (insert_ranked a bs)"
      by (intro Cons.IH) auto
    with False ba Cons.prems(1) show ?thesis by (auto simp: set_insert_ranked)
  qed
qed

lemma mset_insert_ranked: "mset (insert_ranked a bs) = add_mset a (mset bs)"
  by (induction bs) auto

lemma ranked_entries: "mset (foldr insert_ranked xs []) = mset xs"
  by (induction xs) (auto simp: mset_insert_ranked)

lemma ranked_sorted_aux:
  "distinct (map fst xs) \<Longrightarrow> sorted_wrt outranks (foldr insert_ranked xs [])"
proof (induction xs)
  case Nil
  then show ?case by simp
next
  case (Cons x xs)
  have "set (foldr insert_ranked xs []) = set xs"
    using ranked_entries [of xs] by (rule mset_eq_setD)
  with Cons.prems have fresh: "fst x \<notin> fst ` set (foldr insert_ranked xs [])" by simp
  from Cons have "sorted_wrt outranks (foldr insert_ranked xs [])" by simp
  from sorted_insert_ranked [OF this fresh] show ?case by simp
qed

lemma ranked_sorted: "sorted_wrt outranks (ranked t)"
  unfolding ranked_def by (rule ranked_sorted_aux) simp

lemma getSnapshot_mset: "mset (getSnapshot e) = mset (table e)"
proof -
  have "mset (getSnapshot e) = image_mset snd (mset (ranked (table e)))"
    by (simp add: getSnapshot_def)
  also have "\<dots> = image_mset snd (mset (enumerate 0 (table e)))"
    by (simp add: ranked_def ranked_entries)
  also have "\<dots> = mset (map snd (enumerate 0 (table e)))" by (simp only: mset_map)
  also have "\<dots> = mset (table e)" by (simp only: map_snd_enumerate)
  finally show ?thesis .
qed

text \<open>
  C5. Every snapshot is the table sorted by total points descending, ties broken by
  earliest registration, and that order is strict and total on the snapshot: of two
  entries at different positions exactly one outranks the other, so no two entries
  compare equal. The snapshot holds exactly the participants of the table.
\<close>

theorem snapshot_strict_total_order:
  "sorted_wrt outranks (ranked (table e))
   \<and> getSnapshot e = map snd (ranked (table e))
   \<and> mset (getSnapshot e) = mset (table e)
   \<and> mset (ranked (table e)) = mset (enumerate 0 (table e))
   \<and> (\<forall>i j. i < length (ranked (table e)) \<and> j < length (ranked (table e)) \<and> i \<noteq> j \<longrightarrow>
         (outranks (ranked (table e) ! i) (ranked (table e) ! j)
          \<noteq> outranks (ranked (table e) ! j) (ranked (table e) ! i)))"
proof -
  let ?r = "ranked (table e)"
  have s: "sorted_wrt outranks ?r" by (rule ranked_sorted)
  have lt: "outranks (?r ! i) (?r ! j)" if "i < j" "j < length ?r" for i j
    using s that by (simp add: sorted_wrt_iff_nth_less)
  have strict: "outranks (?r ! i) (?r ! j) \<noteq> outranks (?r ! j) (?r ! i)"
    if "i < length ?r" "j < length ?r" "i \<noteq> j" for i j
  proof (cases "i < j")
    case True
    from lt [OF True that(2)] show ?thesis by (auto dest: outranks_asym)
  next
    case False
    with that(3) have "j < i" by simp
    from lt [OF this that(1)] show ?thesis by (auto dest: outranks_asym)
  qed
  have c2: "getSnapshot e = map snd ?r" by (simp add: getSnapshot_def)
  have c4: "\<forall>i j. i < length ?r \<and> j < length ?r \<and> i \<noteq> j \<longrightarrow>
         (outranks (?r ! i) (?r ! j) \<noteq> outranks (?r ! j) (?r ! i))"
    using strict by blast
  have c3: "mset (ranked (table e)) = mset (enumerate 0 (table e))"
    by (simp add: ranked_def ranked_entries)
  show ?thesis by (rule conjI [OF s conjI [OF c2 conjI [OF getSnapshot_mset conjI [OF c3 c4]]]])
qed

theorem snapshot_strict_total_order_witness:
  "getSnapshot (projr scenario)
     = [\<lparr>ident = 1, display_name = ''B'', total_points = 20\<rparr>,
        \<lparr>ident = 0, display_name = ''A'', total_points = 10\<rparr>,
        \<lparr>ident = 2, display_name = ''C'', total_points = 0\<rparr>]
   \<and> sorted_wrt outranks (ranked (table (projr scenario)))
   \<and> outranks (ranked (table (projr scenario)) ! 0) (ranked (table (projr scenario)) ! 1)
   \<and> \<not> outranks (ranked (table (projr scenario)) ! 1) (ranked (table (projr scenario)) ! 0)"
proof -
  have c1: "getSnapshot (projr scenario)
     = [\<lparr>ident = 1, display_name = ''B'', total_points = 20\<rparr>,
        \<lparr>ident = 0, display_name = ''A'', total_points = 10\<rparr>,
        \<lparr>ident = 2, display_name = ''C'', total_points = 0\<rparr>]" by code_simp
  have n: "length (ranked (table (projr scenario))) = 3" by code_simp
  have o: "outranks (ranked (table (projr scenario)) ! 0) (ranked (table (projr scenario)) ! 1)"
    by code_simp
  note t = snapshot_strict_total_order [of "projr scenario"]
  from t have c2: "sorted_wrt outranks (ranked (table (projr scenario)))" by blast
  from t have q: "\<forall>i j. i < length (ranked (table (projr scenario)))
        \<and> j < length (ranked (table (projr scenario))) \<and> i \<noteq> j \<longrightarrow>
         (outranks (ranked (table (projr scenario)) ! i) (ranked (table (projr scenario)) ! j)
          \<noteq> outranks (ranked (table (projr scenario)) ! j) (ranked (table (projr scenario)) ! i))"
    by blast
  have "(0::nat) < length (ranked (table (projr scenario)))
      \<and> (1::nat) < length (ranked (table (projr scenario))) \<and> (0::nat) \<noteq> 1"
    by (simp add: n)
  with q [THEN spec, of 0, THEN spec, of 1]
  have "outranks (ranked (table (projr scenario)) ! 0) (ranked (table (projr scenario)) ! 1)
          \<noteq> outranks (ranked (table (projr scenario)) ! 1) (ranked (table (projr scenario)) ! 0)"
    by blast
  with o have c4: "\<not> outranks (ranked (table (projr scenario)) ! 1)
      (ranked (table (projr scenario)) ! 0)" by blast
  from c1 c2 o c4 show ?thesis by blast
qed

lemma filter_below_nth:
  "sorted_wrt (\<lambda>a b. f b < f a) xs \<Longrightarrow> k < length xs \<Longrightarrow>
     filter (\<lambda>r. (f r :: nat) < f (xs ! k)) xs = drop (Suc k) xs"
proof (induction xs arbitrary: k)
  case Nil
  then show ?case by simp
next
  case (Cons x ys)
  show ?case
  proof (cases k)
    case 0
    from Cons.prems(1) have "\<forall>y \<in> set ys. f y < f x" by simp
    then have "filter (\<lambda>r. f r < f x) ys = ys" by (simp add: filter_id_conv)
    with 0 show ?thesis by simp
  next
    case (Suc n)
    with Cons.prems have n: "n < length ys" by simp
    then have "ys ! n \<in> set ys" by simp
    with Cons.prems(1) have "f (ys ! n) < f x" by simp
    moreover from Cons.prems(1) have "sorted_wrt (\<lambda>a b. f b < f a) ys" by simp
    ultimately show ?thesis using Cons.IH [of n] n Suc by simp
  qed
qed

lemma gap_free_descending: "gap_free l \<Longrightarrow> sorted_wrt (\<lambda>a b. seq b < seq a) (rev l)"
proof -
  assume "gap_free l"
  then have "map seq l = [1..<Suc (length l)]" by (simp only: gap_free_def)
  then have "sorted_wrt (<) (map seq l)" by (simp only: sorted_wrt_upt)
  then have "sorted_wrt (\<lambda>a b. seq a < seq b) l" by (simp add: sorted_wrt_map)
  then show ?thesis by (simp add: sorted_wrt_rev)
qed

lemma gap_free_append: "gap_free l \<Longrightarrow> gap_free (snd (append_claim pid awarded now l))"
  by (simp add: gap_free_def append_claim_def Let_def)

text \<open>The invariant holds of the empty ledger, and registration and claims keep it.\<close>

lemma gap_free_Nil: "gap_free []"
  by (simp add: gap_free_def)

lemma registerParticipant_ledger:
  "registerParticipant name e = Inr (p, e') \<Longrightarrow> ledger e' = ledger e"
  by (auto simp: registerParticipant_def Let_def split: if_splits)

lemma claim_gap_free:
  assumes "gap_free (ledger e)" and "claim pid awarded now e = Inr (r, e')"
  shows "gap_free (ledger e')"
proof -
  from assms(2) have "ledger e' = snd (append_claim pid awarded now (ledger e))"
    by (auto simp: claim_def split: if_splits sum.splits prod.splits)
  with gap_free_append [OF assms(1)] show ?thesis by simp
qed

text \<open>
  C6. On a ledger as the engine appends it, \<^verbatim>\<open>history\<close> returns records newest first
  (sequence numbers strictly descending), at most \<open>limit\<close> of them; without a cursor
  they are the \<open>limit\<close> newest records, and with a cursor only records with a smaller
  sequence number. Paging by the sequence number of the last record of a page yields the
  next records, whatever the timestamps are.
\<close>

theorem history_newest_first:
  assumes "gap_free l"
  shows "sorted_wrt (\<lambda>a b. seq b < seq a) (history limit before_seq l)
    \<and> length (history limit before_seq l) \<le> limit
    \<and> history limit None l = take limit (rev l)
    \<and> (\<forall>c. history limit (Some c) l = take limit (filter (\<lambda>r. seq r < c) (rev l)))
    \<and> (\<forall>n. 0 < n \<and> n \<le> length l \<longrightarrow>
          history limit (Some (seq (last (history n None l)))) l = take limit (drop n (rev l)))"
proof -
  have desc: "sorted_wrt (\<lambda>a b. seq b < seq a) (rev l)"
    using assms by (rule gap_free_descending)
  have c1: "sorted_wrt (\<lambda>a b. seq b < seq a) (history limit before_seq l)"
    unfolding history_def by (intro sorted_wrt_take sorted_wrt_filter desc)
  have c2: "length (history limit before_seq l) \<le> limit" by (simp add: history_def)
  have c3: "history limit None l = take limit (rev l)" by (simp add: history_def)
  have c4: "\<forall>c. history limit (Some c) l = take limit (filter (\<lambda>r. seq r < c) (rev l))"
    by (simp add: history_def)
  have page: "history limit (Some (seq (last (history n None l)))) l = take limit (drop n (rev l))"
    if n: "0 < n" "n \<le> length l" for n
  proof -
    from n have k: "n - 1 < length (rev l)" by simp
    from n have "take n (rev l) \<noteq> []" by auto
    then have "last (history n None l) = take n (rev l) ! (length (take n (rev l)) - 1)"
      by (simp add: history_def last_conv_nth)
    also from n have "\<dots> = rev l ! (n - 1)" by simp
    finally have "last (history n None l) = rev l ! (n - 1)" .
    with filter_below_nth [OF desc k] n show ?thesis by (simp add: history_def)
  qed
  then have c5: "\<forall>n. 0 < n \<and> n \<le> length l \<longrightarrow>
          history limit (Some (seq (last (history n None l)))) l = take limit (drop n (rev l))"
    by blast
  show ?thesis by (rule conjI [OF c1 conjI [OF c2 conjI [OF c3 conjI [OF c4 c5]]]])
qed

theorem history_newest_first_witness:
  "listHistory 2 (projr scenario)
     = [\<lparr>participant_id = 1, points = 20, timestamp = 1000, seq = 2\<rparr>,
        \<lparr>participant_id = 0, points = 10, timestamp = 1000, seq = 1\<rparr>]
   \<and> sorted_wrt (\<lambda>a b. seq b < seq a) (history 2 None (ledger (projr scenario)))
   \<and> history 1 (Some (seq (last (history 1 None (ledger (projr scenario))))))
        (ledger (projr scenario))
     = [\<lparr>participant_id = 0, points = 10, timestamp = 1000, seq = 1\<rparr>]"
proof -
  have g: "gap_free (ledger (projr scenario))" by code_simp
  have c1: "listHistory 2 (projr scenario)
     = [\<lparr>participant_id = 1, points = 20, timestamp = 1000, seq = 2\<rparr>,
        \<lparr>participant_id = 0, points = 10, timestamp = 1000, seq = 1\<rparr>]" by code_simp
  have l: "length (ledger (projr scenario)) = 2" by code_simp
  have d: "take 1 (drop 1 (rev (ledger (projr scenario))))
     = [\<lparr>participant_id = 0, points = 10, timestamp = 1000, seq = 1\<rparr>]" by code_simp
  note t = history_newest_first [OF g, of 2 None]
  from t have c2: "sorted_wrt (\<lambda>a b. seq b < seq a) (history 2 None (ledger (projr scenario)))"
    by blast
  from history_newest_first [OF g, of 1 None]
  have "\<forall>n. 0 < n \<and> n \<le> length (ledger (projr scenario)) \<longrightarrow>
          history 1 (Some (seq (last (history n None (ledger (projr scenario))))))
            (ledger (projr scenario)) = take 1 (drop n (rev (ledger (projr scenario))))"
    by blast
  with l have "history 1 (Some (seq (last (history 1 None (ledger (projr scenario))))))
            (ledger (projr scenario)) = take 1 (drop 1 (rev (ledger (projr scenario))))"
    by simp
  with d have c3: "history 1 (Some (seq (last (history 1 None (ledger (projr scenario))))))
        (ledger (projr scenario))
     = [\<lparr>participant_id = 0, points = 10, timestamp = 1000, seq = 1\<rparr>]" by simp
  from c1 c2 c3 show ?thesis by blast
qed

lemma mergeRemote_known:
  "set (map seq b) \<subseteq> set (map seq l) \<Longrightarrow> mergeRemote l b = l"
  by (induction b arbitrary: l) auto

lemma mergeRemote_seqs:
  "set (map seq (mergeRemote l b)) = set (map seq l) \<union> set (map seq b)"
  by (induction b arbitrary: l) auto

lemma mergeRemote_distinct:
  "distinct (map seq l) \<Longrightarrow> distinct (map seq (mergeRemote l b))"
  by (induction b arbitrary: l) auto

lemma mergeRemote_extends: "\<exists>ext. mergeRemote l b = l @ ext"
proof (induction b arbitrary: l)
  case Nil
  show ?case by simp
next
  case (Cons r rs)
  show ?case
  proof (cases "seq r \<in> set (map seq l)")
    case True
    with Cons.IH [of l] show ?thesis by simp
  next
    case False
    from Cons.IH [of "l @ [r]"] obtain ext where "mergeRemote (l @ [r]) rs = (l @ [r]) @ ext" ..
    with False show ?thesis by simp
  qed
qed

text \<open>
  C7. \<^verbatim>\<open>mergeRemote\<close> is idempotent and deduplicates by sequence number: merging a
  batch again, or merging any batch whose sequence numbers are already in the merged
  ledger, changes nothing; a ledger without repeated sequence numbers stays so; the
  merged ledger holds the sequence numbers of both sides and keeps the local ledger as
  its prefix.
\<close>

theorem mergeRemote_idempotent:
  "mergeRemote (mergeRemote l b) b = mergeRemote l b
   \<and> (set (map seq b') \<subseteq> set (map seq l) \<union> set (map seq b) \<longrightarrow>
        mergeRemote (mergeRemote l b) b' = mergeRemote l b)
   \<and> (distinct (map seq l) \<longrightarrow> distinct (map seq (mergeRemote l b)))
   \<and> set (map seq (mergeRemote l b)) = set (map seq l) \<union> set (map seq b)
   \<and> (\<exists>ext. mergeRemote l b = l @ ext)"
proof -
  have known: "mergeRemote (mergeRemote l b) c = mergeRemote l b"
    if "set (map seq c) \<subseteq> set (map seq l) \<union> set (map seq b)" for c
    using that by (intro mergeRemote_known) (simp only: mergeRemote_seqs)
  have c1: "mergeRemote (mergeRemote l b) b = mergeRemote l b" by (rule known) simp
  have c2: "set (map seq b') \<subseteq> set (map seq l) \<union> set (map seq b) \<longrightarrow>
        mergeRemote (mergeRemote l b) b' = mergeRemote l b" using known by blast
  have c3: "distinct (map seq l) \<longrightarrow> distinct (map seq (mergeRemote l b))"
    using mergeRemote_distinct by blast
  show ?thesis
    by (rule conjI [OF c1 conjI [OF c2 conjI [OF c3 conjI [OF mergeRemote_seqs mergeRemote_extends]]]])
qed

theorem mergeRemote_idempotent_witness:
  "mergeRemote (mergeRemote (ledger (projr scenario))
       [\<lparr>participant_id = 1, points = 20, timestamp = 1000, seq = 2\<rparr>,
        \<lparr>participant_id = 2, points = 5, timestamp = 1001, seq = 3\<rparr>])
       [\<lparr>participant_id = 2, points = 5, timestamp = 1001, seq = 3\<rparr>,
        \<lparr>participant_id = 0, points = 10, timestamp = 1000, seq = 1\<rparr>]
     = [\<lparr>participant_id = 0, points = 10, timestamp = 1000, seq = 1\<rparr>,
        \<lparr>participant_id = 1, points = 20, timestamp = 1000, seq = 2\<rparr>,
        \<lparr>participant_id = 2, points = 5, timestamp = 1001, seq = 3\<rparr>]
   \<and> distinct (map seq (mergeRemote (ledger (projr scenario))
       [\<lparr>participant_id = 1, points = 20, timestamp = 1000, seq = 2\<rparr>,
        \<lparr>participant_id = 2, points = 5, timestamp = 1001, seq = 3\<rparr>]))"
proof -
  let ?l = "ledger (projr scenario)"
  let ?b = "[\<lparr>participant_id = 1, points = 20, timestamp = 1000, seq = 2\<rparr>,
        \<lparr>participant_id = 2, points = 5, timestamp = 1001, seq = 3\<rparr>]"
  let ?b' = "[\<lparr>participant_id = 2, points = 5, timestamp = 1001, seq = 3\<rparr>,
        \<lparr>participant_id = 0, points = 10, timestamp = 1000, seq = 1\<rparr>]"
  have s: "set (map seq ?b') \<subseteq> set (map seq ?l) \<union> set (map seq ?b)" by code_simp
  have d: "distinct (map seq ?l)" by code_simp
  have once: "mergeRemote ?l ?b
     = [\<lparr>participant_id = 0, points = 10, timestamp = 1000, seq = 1\<rparr>,
        \<lparr>participant_id = 1, points = 20, timestamp = 1000, seq = 2\<rparr>,
        \<lparr>participant_id = 2, points = 5, timestamp = 1001, seq = 3\<rparr>]" by code_simp
  note t = mergeRemote_idempotent [of ?l ?b ?b']
  from t s have "mergeRemote (mergeRemote ?l ?b) ?b' = mergeRemote ?l ?b" by blast
  with once have c1: "mergeRemote (mergeRemote ?l ?b) ?b'
     = [\<lparr>participant_id = 0, points = 10, timestamp = 1000, seq = 1\<rparr>,
        \<lparr>participant_id = 1, points = 20, timestamp = 1000, seq = 2\<rparr>,
        \<lparr>participant_id = 2, points = 5, timestamp = 1001, seq = 3\<rparr>]" by simp
  from t d have c2: "distinct (map seq (mergeRemote ?l ?b))" by blast
  from c1 c2 show ?thesis by blast
qed

end
